theory Spec2Isabelle
  imports Complex_Main
begin

section \<open>The speed limiter of \<open>src/speedlimit/__init__.py\<close>\<close>

text \<open>
  The module holds one class, \<open>SpeedLimit\<close>, with a constructor, the private method
  \<open>_check_fill\<close> and the generator \<open>speed_limit_iter\<close>.

  Numbers. The clock \<open>monotonic()\<close> returns a float, so every time and every quantity
  computed from one is a float in the source. The model uses exact reals for all of them:
  rounding, overflow, infinities and NaN are not modelled. The counters \<open>_slow_count\<close> and
  \<open>_too_slow_count\<close> are Python integers and are modelled by \<open>int\<close>.

  Environment. \<open>_now()\<close> is modelled by a clock \<open>clk\<close>: the \<open>n\<close>-th call of \<open>_now()\<close>
  (counted from 0, in program order) returns \<open>clk n\<close>. The state counts the calls made so
  far in \<open>reads\<close>. The injected \<open>sleep_func\<close> is modelled by the log \<open>slept\<close> of the
  arguments it was called with; whatever it does to the time shows in the later values
  of \<open>clk\<close>. \<open>print\<close> is modelled by the log \<open>printed\<close> of the three values formatted.
\<close>

subsection \<open>Data\<close>

datatype error =
    AssertionError
  | ZeroDivisionError
  | TooSlowError real real

text \<open>
  The attributes of a \<open>SpeedLimit\<close> object (\<open>self._bucket\<close> is \<open>bucket\<close>, and so on),
  followed by the three fields of the environment.
\<close>

record state =
  refresh_rate_seconds :: real
  bucket :: real
  items_per_tic :: real
  next_fill :: real
  last_check :: real
  last_size :: real
  check_interval :: real
  max_left_per_second :: real
  slow_count :: int
  too_slow_count :: int
  reads :: nat
  slept :: "real list"
  printed :: "(int \<times> real \<times> real) list"

type_synonym clock = "nat \<Rightarrow> real"

text \<open>
  A call either returns, leaving the state \<open>s\<close> (\<open>Inr s\<close>), or raises \<open>e\<close>, leaving the
  object and the environment as they were when the exception left the method
  (\<open>Inl (e, s)\<close>): Python does not undo the assignments made before a \<open>raise\<close>.
\<close>

type_synonym result = "(error \<times> state) + state"

definition final :: "result \<Rightarrow> state" where
  "final r = (case r of Inl (e, s) \<Rightarrow> s | Inr s \<Rightarrow> s)"

definition raised :: "result \<Rightarrow> error option" where
  "raised r = (case r of Inl (e, s) \<Rightarrow> Some e | Inr s \<Rightarrow> None)"

subsection \<open>\<open>__init__\<close> (lines 56 to 95)\<close>

text \<open>
  \<open>not items_per_second\<close> holds for the number 0. The two calls of \<open>_now()\<close> are the
  calls number 0 and 1. A failed \<open>assert\<close> raises before any attribute is set, so no
  object exists then.
\<close>

definition init ::
  "clock \<Rightarrow> real \<Rightarrow> real \<Rightarrow> real \<Rightarrow> real \<Rightarrow> real \<Rightarrow> int \<Rightarrow> error + state" where
  "init clk items_per_second refresh_rate_seconds' initial_bucket_size min_per_second
        check_interval' too_slow_count' =
    (let items_per_second = (if items_per_second = 0 then 10 ^ 10 else items_per_second) in
     if \<not> min_per_second \<le> items_per_second then Inl AssertionError
     else
       let check_interval' = (if min_per_second = 0 then 10 ^ 10 else check_interval') in
       Inr \<lparr> refresh_rate_seconds = refresh_rate_seconds',
             bucket = items_per_second * refresh_rate_seconds' * initial_bucket_size,
             items_per_tic = items_per_second * refresh_rate_seconds',
             next_fill = clk 0 + refresh_rate_seconds',
             last_check = clk 1,
             last_size = items_per_second * refresh_rate_seconds' * initial_bucket_size,
             check_interval = check_interval',
             max_left_per_second = (items_per_second - min_per_second) * initial_bucket_size,
             slow_count = 0,
             too_slow_count = too_slow_count',
             reads = 2,
             slept = [],
             printed = [] \<rparr>)"

subsection \<open>\<open>_check_fill\<close> (lines 97 to 117)\<close>

text \<open>
  Line 104 divides by \<open>self._refresh_rate_seconds\<close>; \<open>d\<close> is a float, so a zero divisor
  raises \<open>ZeroDivisionError\<close>, before anything is assigned. \<open>int(math.ceil(x))\<close> is the
  ceiling of \<open>x\<close>.
\<close>

definition check_fill :: "clock \<Rightarrow> state \<Rightarrow> result" where
  "check_fill clk s =
    (let now = clk (reads s);
         s0 = s\<lparr>reads := Suc (reads s)\<rparr>
     in
     if now > next_fill s0 \<and> refresh_rate_seconds s0 = 0 then Inl (ZeroDivisionError, s0)
     else
       let s1 = (if now > next_fill s0 then
                   let d = now - next_fill s0;
                       tics = \<lceil>d / refresh_rate_seconds s0\<rceil>
                   in s0\<lparr>bucket := bucket s0 + of_int tics * items_per_tic s0,
                         next_fill := next_fill s0 + of_int tics * refresh_rate_seconds s0\<rparr>
                 else s0)
       in
       if now - last_check s1 > check_interval s1 then
         let d' = now - last_check s1;
             max_left = last_size s1 + max_left_per_second s1 * d'
         in
         if bucket s1 > max_left then
           let s2 = s1\<lparr>slow_count := slow_count s1 + 1\<rparr>;
               s3 = s2\<lparr>printed := printed s2 @ [(slow_count s2, bucket s2, max_left)]\<rparr>
           in
           if slow_count s3 \<ge> too_slow_count s3
           then Inl (TooSlowError (bucket s3) max_left, s3)
           else Inr (s3\<lparr>last_size := bucket s3, last_check := now\<rparr>)
         else Inr (s1\<lparr>last_size := bucket s1, last_check := now\<rparr>)
       else Inr s1)"

subsection \<open>\<open>speed_limit_iter\<close> (lines 119 to 142)\<close>

text \<open>
  \<open>int(x)\<close> of a float truncates towards zero. (Where both operands of line 134 are
  Python 2 integers, \<open>/\<close> is floor division instead; the two agree whenever the quotient
  is not negative, which is the case for a positive \<open>_items_per_tic\<close>, the branch being
  entered with \<open>sz > self._bucket\<close>.)
\<close>

definition py_int :: "real \<Rightarrow> int" where
  "py_int x = (if 0 \<le> x then \<lfloor>x\<rfloor> else \<lceil>x\<rceil>)"

text \<open>
  The body of the \<open>for\<close> loop from line 131 to line 141, for a chunk of size \<open>sz\<close>.
  Line 134 divides by \<open>self._items_per_tic\<close>.
\<close>

definition iter_body :: "clock \<Rightarrow> real \<Rightarrow> state \<Rightarrow> result" where
  "iter_body clk sz s =
    (case check_fill clk s of
       Inl e \<Rightarrow> Inl e
     | Inr s1 \<Rightarrow>
        (case (if sz > bucket s1 then
                 let now = clk (reads s1);
                     s2 = s1\<lparr>reads := Suc (reads s1)\<rparr>
                 in
                 if items_per_tic s2 = 0 then Inl (ZeroDivisionError, s2)
                 else
                   let tics = py_int ((sz - bucket s2) / items_per_tic s2);
                       tm_diff = next_fill s2 - now;
                       secs = of_int tics * refresh_rate_seconds s2;
                       secs = (if tm_diff > 0 then secs + tm_diff else secs);
                       s3 = s2\<lparr>slept := slept s2 @ [secs]\<rparr>
                   in check_fill clk s3
               else Inr s1) of
           Inl e \<Rightarrow> Inl e
         | Inr s4 \<Rightarrow> Inr (s4\<lparr>bucket := bucket s4 - sz\<rparr>)))"

text \<open>
  Lines 127 to 130: \<open>chunk_size_cb\<close> is \<open>None\<close> or a function (by default \<open>len\<close>).
\<close>

definition chunk_size :: "('a \<Rightarrow> real) option \<Rightarrow> 'a \<Rightarrow> real" where
  "chunk_size chunk_size_cb chunk =
     (case chunk_size_cb of None \<Rightarrow> 1 | Some f \<Rightarrow> f chunk)"

text \<open>
  The generator, run to the end of \<open>itr\<close> or to the first exception: the chunks it has
  yielded, in order, and how it ended.
\<close>

fun speed_limit_iter ::
  "clock \<Rightarrow> ('a \<Rightarrow> real) option \<Rightarrow> 'a list \<Rightarrow> state \<Rightarrow> 'a list \<times> result" where
  "speed_limit_iter clk chunk_size_cb [] s = ([], Inr s)"
| "speed_limit_iter clk chunk_size_cb (chunk # itr) s =
    (let sz = chunk_size chunk_size_cb chunk in
     case iter_body clk sz s of
       Inl e \<Rightarrow> ([], Inl e)
     | Inr s' \<Rightarrow>
        (case speed_limit_iter clk chunk_size_cb itr s' of
           (ys, r) \<Rightarrow> (chunk # ys, r)))"

text \<open>
  The argument of \<open>self._sleep\<close> at line 139, computed by lines 133 to 138 in the state
  \<open>s1\<close> left by the first \<open>_check_fill\<close>, with \<open>now\<close> the value read at line 133.
\<close>

definition wait_secs :: "real \<Rightarrow> state \<Rightarrow> real \<Rightarrow> real" where
  "wait_secs sz s1 now =
     of_int (py_int ((sz - bucket s1) / items_per_tic s1)) * refresh_rate_seconds s1
     + (if next_fill s1 - now > 0 then next_fill s1 - now else 0)"

subsection \<open>Concrete objects and clocks\<close>

text \<open>
  \<open>SpeedLimit(items_per_second=10, min_per_second=5, check_interval=5, too_slow_count=2)\<close>
  constructed while the clock reads 0.
\<close>

definition start :: state where
  "start = \<lparr> refresh_rate_seconds = 1, bucket = 10, items_per_tic = 10, next_fill = 1,
             last_check = 0, last_size = 10, check_interval = 5, max_left_per_second = 5,
             slow_count = 0, too_slow_count = 2, reads = 2, slept = [], printed = [] \<rparr>"

text \<open>A consumer that comes back 6 seconds after the construction, and again at 12.\<close>

definition idle_clock :: clock where
  "idle_clock n = (if n < 2 then 0 else if n = 2 then 6 else 12)"

text \<open>The object \<open>start\<close> after a first chunk of size 60 under \<open>idle_clock\<close>.\<close>

definition lagging :: state where
  "lagging = \<lparr> refresh_rate_seconds = 1, bucket = 0, items_per_tic = 10, next_fill = 6,
               last_check = 6, last_size = 60, check_interval = 5, max_left_per_second = 5,
               slow_count = 1, too_slow_count = 2, reads = 3, slept = [],
               printed = [(1, 60, 40)] \<rparr>"



text \<open>\<open>SpeedLimit()\<close>, all arguments at their defaults, constructed while the clock reads 0.\<close>

definition unlimited :: state where
  "unlimited = \<lparr> refresh_rate_seconds = 1, bucket = 10 ^ 10, items_per_tic = 10 ^ 10,
                 next_fill = 1, last_check = 0, last_size = 10 ^ 10,
                 check_interval = 10 ^ 10, max_left_per_second = 10 ^ 10,
                 slow_count = 0, too_slow_count = 10, reads = 2, slept = [], printed = [] \<rparr>"

subsection \<open>Reachable states\<close>

text \<open>
  The states an object can be in after its construction left it in \<open>s0\<close>: any number of
  calls of \<open>_check_fill\<close> and of passes through the loop body for chunks of non-negative
  size, in any order, each leaving the state in which it returned or raised.
\<close>

inductive reachable :: "clock \<Rightarrow> state \<Rightarrow> state \<Rightarrow> bool" for clk :: clock and s0 :: state where
  constructed: "reachable clk s0 s0"
| filled: "reachable clk s0 s \<Longrightarrow> reachable clk s0 (final (check_fill clk s))"
| admitted: "reachable clk s0 s \<Longrightarrow> 0 \<le> sz \<Longrightarrow> reachable clk s0 (final (iter_body clk sz s))"

text \<open>
  The tokens credited so far are those of the tic boundaries up to \<open>next_fill\<close>, and
  \<open>next_fill\<close> is less than one tic ahead of the latest reading of the clock: \<open>b0\<close> is the
  bucket at construction, \<open>clk 0\<close> the time of construction.
\<close>

definition within_credit :: "clock \<Rightarrow> real \<Rightarrow> state \<Rightarrow> bool" where
  "within_credit clk b0 s \<longleftrightarrow>
     0 < refresh_rate_seconds s \<and> 0 \<le> items_per_tic s \<and> 0 < reads s
     \<and> next_fill s \<le> clk (reads s - 1) + refresh_rate_seconds s
     \<and> bucket s * refresh_rate_seconds s
         \<le> b0 * refresh_rate_seconds s
            + items_per_tic s * (next_fill s - refresh_rate_seconds s - clk 0)"

section \<open>Basic facts\<close>

lemma final_simps [simp]: "final (Inr s) = s" "final (Inl (e, s)) = s"
  by (simp_all add: final_def)

lemma raised_simps [simp]: "raised (Inr s) = None" "raised (Inl (e, s)) = Some e"
  by (simp_all add: raised_def)

lemma check_fill_config [simp]:
  "refresh_rate_seconds (final (check_fill clk s)) = refresh_rate_seconds s"
  "items_per_tic (final (check_fill clk s)) = items_per_tic s"
  "check_interval (final (check_fill clk s)) = check_interval s"
  "max_left_per_second (final (check_fill clk s)) = max_left_per_second s"
  "too_slow_count (final (check_fill clk s)) = too_slow_count s"
  by (simp_all add: check_fill_def Let_def)

lemma check_fill_env [simp]:
  "reads (final (check_fill clk s)) = Suc (reads s)"
  "slept (final (check_fill clk s)) = slept s"
  by (simp_all add: check_fill_def Let_def)

lemma check_fill_bucket:
  "bucket (final (check_fill clk s)) =
     (if clk (reads s) > next_fill s \<and> refresh_rate_seconds s \<noteq> 0
      then bucket s
           + of_int \<lceil>(clk (reads s) - next_fill s) / refresh_rate_seconds s\<rceil> * items_per_tic s
      else bucket s)"
  by (simp add: check_fill_def Let_def)

lemma check_fill_next_fill:
  "next_fill (final (check_fill clk s)) =
     (if clk (reads s) > next_fill s \<and> refresh_rate_seconds s \<noteq> 0
      then next_fill s
           + of_int \<lceil>(clk (reads s) - next_fill s) / refresh_rate_seconds s\<rceil>
             * refresh_rate_seconds s
      else next_fill s)"
  by (simp add: check_fill_def Let_def)

lemma check_fill_slow_count:
  "slow_count s \<le> slow_count (final (check_fill clk s))"
  by (simp add: check_fill_def Let_def)

text \<open>The ceiling of line 104, for a positive tic length.\<close>

lemma tics_positive:
  fixes d r :: real
  assumes "0 < r" "0 < d"
  shows "1 \<le> \<lceil>d / r\<rceil>"
proof -
  have "0 < d / r" using assms by simp
  then have "0 < \<lceil>d / r\<rceil>" by (simp add: ceiling_less_iff)
  then show ?thesis by simp
qed

lemma tics_cover:
  fixes d r :: real
  assumes "0 < r"
  shows "d \<le> of_int \<lceil>d / r\<rceil> * r" "of_int \<lceil>d / r\<rceil> * r - r < d"
proof -
  have eq: "d = d / r * r" using assms by simp
  have "d / r * r \<le> of_int \<lceil>d / r\<rceil> * r"
    using assms by (intro mult_right_mono) simp_all
  with eq show "d \<le> of_int \<lceil>d / r\<rceil> * r" by simp
  have "of_int \<lceil>d / r\<rceil> - 1 < d / r" by linarith
  then have "(of_int \<lceil>d / r\<rceil> - 1) * r < d / r * r"
    using assms by (intro mult_strict_right_mono) simp_all
  with eq show "of_int \<lceil>d / r\<rceil> * r - r < d" by (simp add: algebra_simps)
qed

text \<open>With a positive tic length and a non-negative rate a call never takes tokens away.\<close>

lemma check_fill_grows:
  assumes "0 < refresh_rate_seconds s" "0 \<le> items_per_tic s"
  shows "bucket s \<le> bucket (final (check_fill clk s))"
proof (cases "clk (reads s) > next_fill s")
  case True
  then have "1 \<le> \<lceil>(clk (reads s) - next_fill s) / refresh_rate_seconds s\<rceil>"
    using assms(1) by (intro tics_positive) simp_all
  then have "0 \<le> of_int \<lceil>(clk (reads s) - next_fill s) / refresh_rate_seconds s\<rceil>
                  * items_per_tic s"
    using assms(2) by (intro mult_nonneg_nonneg) simp_all
  then show ?thesis by (simp add: check_fill_bucket)
next
  case False
  then show ?thesis by (simp add: check_fill_bucket)
qed

text \<open>The four ways through the loop body.\<close>

lemma iter_body_cases [case_names raise_first no_wait zero_rate wait]:
  obtains
    (raise_first) e s1 where
      "check_fill clk s = Inl (e, s1)" "iter_body clk sz s = Inl (e, s1)"
  | (no_wait) s1 where
      "check_fill clk s = Inr s1" "sz \<le> bucket s1"
      "iter_body clk sz s = Inr (s1\<lparr>bucket := bucket s1 - sz\<rparr>)"
  | (zero_rate) s1 where
      "check_fill clk s = Inr s1" "sz > bucket s1" "items_per_tic s1 = 0"
      "iter_body clk sz s = Inl (ZeroDivisionError, s1\<lparr>reads := Suc (reads s1)\<rparr>)"
  | (wait) s1 s3 where
      "check_fill clk s = Inr s1" "sz > bucket s1" "items_per_tic s1 \<noteq> 0"
      "s3 = s1\<lparr>reads := Suc (reads s1),
                slept := slept s1 @ [wait_secs sz s1 (clk (reads s1))]\<rparr>"
      "iter_body clk sz s =
         (case check_fill clk s3 of
            Inl e \<Rightarrow> Inl e
          | Inr s4 \<Rightarrow> Inr (s4\<lparr>bucket := bucket s4 - sz\<rparr>))"
proof (cases "check_fill clk s")
  case (Inl p)
  then show ?thesis
    using raise_first by (cases p) (simp add: iter_body_def)
next
  case (Inr s1)
  show ?thesis
  proof (cases "sz > bucket s1")
    case False
    with Inr show ?thesis using no_wait[of s1] by (simp add: iter_body_def)
  next
    case True
    show ?thesis
    proof (cases "items_per_tic s1 = 0")
      case True
      with Inr \<open>sz > bucket s1\<close> show ?thesis
        using zero_rate[of s1] by (simp add: iter_body_def Let_def)
    next
      case False
      with Inr True show ?thesis
        using wait[of s1 "s1\<lparr>reads := Suc (reads s1),
                slept := slept s1 @ [wait_secs sz s1 (clk (reads s1))]\<rparr>"]
        by (simp add: iter_body_def Let_def wait_secs_def)
    qed
  qed
qed

lemma iter_body_slow_count:
  "slow_count s \<le> slow_count (final (iter_body clk sz s))"
proof (cases rule: iter_body_cases[of clk s sz])
  case (raise_first e s1)
  then show ?thesis using check_fill_slow_count[of s clk] by simp
next
  case (no_wait s1)
  then show ?thesis using check_fill_slow_count[of s clk] by simp
next
  case (zero_rate s1)
  then show ?thesis using check_fill_slow_count[of s clk] by simp
next
  case (wait s1 s3)
  have "slow_count s \<le> slow_count s1"
    using wait(1) check_fill_slow_count[of s clk] by simp
  also have "slow_count s1 = slow_count s3" using wait(4) by simp
  also have "\<dots> \<le> slow_count (final (check_fill clk s3))"
    by (rule check_fill_slow_count)
  also have "\<dots> = slow_count (final (iter_body clk sz s))"
    using wait(5) by (cases "check_fill clk s3") (auto simp: final_def split: prod.split)
  finally show ?thesis .
qed

lemma speed_limit_iter_slow_count:
  "slow_count s \<le> slow_count (final (snd (speed_limit_iter clk cb itr s)))"
proof (induction itr arbitrary: s)
  case Nil
  show ?case by simp
next
  case (Cons chunk itr)
  let ?sz = "chunk_size cb chunk"
  show ?case
  proof (cases "iter_body clk ?sz s")
    case (Inl p)
    then show ?thesis
      using iter_body_slow_count[of s clk ?sz] by (cases p) simp
  next
    case (Inr s')
    then have "slow_count s \<le> slow_count s'"
      using iter_body_slow_count[of s clk ?sz] by simp
    also have "\<dots> \<le> slow_count (final (snd (speed_limit_iter clk cb itr s')))"
      by (rule Cons.IH)
    finally show ?thesis using Inr by (simp add: split_beta)
  qed
qed

lemma start_init: "init idle_clock 10 1 1 5 5 2 = Inr start"
  by (simp add: init_def start_def idle_clock_def)


lemma lagging_reached:
  "speed_limit_iter idle_clock (Some (\<lambda>x. x)) [60] start = ([60], Inr lagging)"
  by (simp add: chunk_size_def iter_body_def check_fill_def Let_def start_def lagging_def
        idle_clock_def)

section \<open>Filling the bucket\<close>



section \<open>The slowness check\<close>

text \<open>
  C5. In a call of \<open>_check_fill\<close> that does not divide by a zero tic length: while
  \<open>now - last_check \<le> check_interval\<close> the check does nothing (no exception, counter,
  snapshot and output unchanged). When it runs and the filled bucket exceeds
  \<open>last_size + max_left_per_second * (now - last_check)\<close>, the counter is incremented, and
  \<open>TooSlowError\<close> with the bucket and that maximum is raised if and only if the incremented
  counter has reached \<open>too_slow_count\<close>; below the threshold the call returns. Every
  check that runs and returns, with or without a violation, sets \<open>last_check\<close> to \<open>now\<close>
  and \<open>last_size\<close> to the bucket.
\<close>

theorem slowness_check_escalation:
  assumes "refresh_rate_seconds s \<noteq> 0 \<or> clk (reads s) \<le> next_fill s"
  shows "let now = clk (reads s);
             r = check_fill clk s;
             s' = final r;
             elapsed = now - last_check s;
             max_allowed = last_size s + max_left_per_second s * elapsed
         in if elapsed \<le> check_interval s then
              raised r = None \<and> slow_count s' = slow_count s \<and> printed s' = printed s
              \<and> last_check s' = last_check s \<and> last_size s' = last_size s
            else if bucket s' > max_allowed then
              slow_count s' = slow_count s + 1
              \<and> (if slow_count s + 1 \<ge> too_slow_count s
                  then raised r = Some (TooSlowError (bucket s') max_allowed)
                  else raised r = None \<and> last_check s' = now \<and> last_size s' = bucket s')
            else raised r = None \<and> last_check s' = now \<and> last_size s' = bucket s'"
  using assms by (auto simp add: check_fill_def Let_def)

text \<open>
  C5, with the threshold 2: at \<open>start\<close> a read at 3 is inside the interval and nothing
  happens; a read at 6 finds 60 tokens against 40 allowed, counts 1 and returns; at
  \<open>lagging\<close>, where the counter is 1, a read of 20 finds 140 tokens against 130 allowed,
  counts 2 and raises.
\<close>

theorem slowness_check_escalation_witness:
  "refresh_rate_seconds start \<noteq> 0 \<and> refresh_rate_seconds lagging \<noteq> 0
   \<and> raised (check_fill (\<lambda>n. 3) start) = None
   \<and> slow_count (final (check_fill (\<lambda>n. 3) start)) = 0
   \<and> last_check (final (check_fill (\<lambda>n. 3) start)) = 0
   \<and> raised (check_fill (\<lambda>n. 6) start) = None
   \<and> slow_count (final (check_fill (\<lambda>n. 6) start)) = 1
   \<and> last_check (final (check_fill (\<lambda>n. 6) start)) = 6
   \<and> last_size (final (check_fill (\<lambda>n. 6) start)) = 60
   \<and> raised (check_fill (\<lambda>n. 20) lagging) = Some (TooSlowError 140 130)
   \<and> slow_count (final (check_fill (\<lambda>n. 20) lagging)) = 2"
proof -
  have b: "bucket (final (check_fill (\<lambda>n. 3) start)) = 30"
          "bucket (final (check_fill (\<lambda>n. 6) start)) = 60"
          "bucket (final (check_fill (\<lambda>n. 20) lagging)) = 140"
    by (simp_all add: check_fill_bucket start_def lagging_def)
  have c: "refresh_rate_seconds start \<noteq> 0" "refresh_rate_seconds lagging \<noteq> 0"
    by (simp_all add: start_def lagging_def)
  show ?thesis
    using slowness_check_escalation[of start "\<lambda>n. 3"]
          slowness_check_escalation[of start "\<lambda>n. 6"]
          slowness_check_escalation[of lagging "\<lambda>n. 20"] b c
    by (simp add: Let_def start_def lagging_def)
qed

text \<open>
  C4, as stated, fails: the counter is never reset. \<open>lagging\<close> is reached from the
  constructor by one chunk, with one violation counted. The next \<open>_check_fill\<close> reads 12;
  its check runs (6 seconds after the last one, the interval being 5) and finds no
  violation (60 tokens, 90 allowed), and the counter is still 1.
\<close>

theorem count_not_reset_counterexample:
  "init idle_clock 10 1 1 5 5 2 = Inr start
   \<and> speed_limit_iter idle_clock (Some (\<lambda>x. x)) [60] start = ([60], Inr lagging)
   \<and> slow_count lagging = 1
   \<and> idle_clock (reads lagging) - last_check lagging > check_interval lagging
   \<and> bucket (final (check_fill idle_clock lagging))
       \<le> last_size lagging
          + max_left_per_second lagging * (idle_clock (reads lagging) - last_check lagging)
   \<and> raised (check_fill idle_clock lagging) = None
   \<and> slow_count (final (check_fill idle_clock lagging)) = 1"
  using start_init lagging_reached
  by (simp add: check_fill_def Let_def lagging_def idle_clock_def)

text \<open>
  C4, amended. A call of \<open>_check_fill\<close> never decreases the counter, and a check that
  runs and finds no violation leaves the counter as it was.
\<close>

theorem passed_check_keeps_count:
  "let now = clk (reads s);
       s' = final (check_fill clk s);
       elapsed = now - last_check s;
       max_allowed = last_size s + max_left_per_second s * elapsed
   in slow_count s \<le> slow_count s'
      \<and> (elapsed > check_interval s \<and> bucket s' \<le> max_allowed
           \<longrightarrow> slow_count s' = slow_count s)"
  by (auto simp add: check_fill_def Let_def)

text \<open>C4, amended, at \<open>lagging\<close> read at 12: the check runs and passes, the counter stays 1.\<close>

theorem passed_check_keeps_count_witness:
  "idle_clock (reads lagging) - last_check lagging > check_interval lagging
   \<and> bucket (final (check_fill idle_clock lagging))
       \<le> last_size lagging
          + max_left_per_second lagging * (idle_clock (reads lagging) - last_check lagging)
   \<and> slow_count (final (check_fill idle_clock lagging)) = 1"
proof -
  have "bucket (final (check_fill idle_clock lagging)) = 60"
    by (simp add: check_fill_bucket lagging_def idle_clock_def)
  then show ?thesis
    using passed_check_keeps_count[where s = lagging and clk = idle_clock]
    by (simp add: Let_def lagging_def idle_clock_def)
qed

text \<open>
  C10. The counter \<open>slow_count\<close> never decreases: not in a call of \<open>_check_fill\<close>, not in
  a pass through the loop body, not over a whole run of the generator, whether these
  return or raise, and whatever the clock reads. (The constructor sets it to 0.)
\<close>

theorem slow_count_never_decreases:
  "slow_count s \<le> slow_count (final (check_fill clk s))
   \<and> slow_count s \<le> slow_count (final (iter_body clk sz s))
   \<and> slow_count s \<le> slow_count (final (snd (speed_limit_iter clk cb itr s)))"
  using check_fill_slow_count iter_body_slow_count speed_limit_iter_slow_count by blast

section \<open>Construction\<close>

text \<open>
  C6, as stated, fails: with \<open>items_per_second\<close> unset (0) and \<open>min_per_second = 5\<close>, which
  is larger, the constructor raises nothing and returns the object.
\<close>

theorem init_accepts_min_above_unset_rate:
  "(0::real) < 5 \<and> \<not> isl (init (\<lambda>n. 0) 0 1 1 5 5 10)"
  by (simp add: init_def Let_def)

text \<open>
  C6, amended. The constructor raises (\<open>AssertionError\<close>, from the \<open>assert\<close> of line 76)
  exactly when \<open>min_per_second\<close> exceeds the rate in force, which is \<open>10 ^ 10\<close> when
  \<open>items_per_second\<close> is 0 and \<open>items_per_second\<close> otherwise; in every other case it
  returns an object.
\<close>

theorem init_raises_iff:
  "(init clk ips rr ibs mps ci tsc = Inl AssertionError
      \<longleftrightarrow> (if ips = 0 then 10 ^ 10 else ips) < mps)
   \<and> (isl (init clk ips rr ibs mps ci tsc)
      \<longleftrightarrow> (if ips = 0 then 10 ^ 10 else ips) < mps)"
  by (simp add: init_def Let_def)

section \<open>Monotone and idempotent filling\<close>





section \<open>Admitting a chunk\<close>


lemma debit_env [simp]:
  "slept (final (case r of Inl e \<Rightarrow> Inl e | Inr s4 \<Rightarrow> Inr (s4\<lparr>bucket := bucket s4 - sz\<rparr>)))
     = slept (final r)"
  "reads (final (case r of Inl e \<Rightarrow> Inl e | Inr s4 \<Rightarrow> Inr (s4\<lparr>bucket := bucket s4 - sz\<rparr>)))
     = reads (final r)"
  by (cases r; auto simp: final_def)+








section \<open>Unlimited mode\<close>

lemma no_wait_while_covered:
  assumes "0 < refresh_rate_seconds s" "0 \<le> items_per_tic s"
    and "\<forall>c \<in> set itr. 0 \<le> chunk_size cb c"
    and "sum_list (map (chunk_size cb) itr) \<le> bucket s"
  shows "slept (final (snd (speed_limit_iter clk cb itr s))) = slept s"
  using assms
proof (induction itr arbitrary: s)
  case Nil
  show ?case by simp
next
  case (Cons chunk itr)
  let ?sz = "chunk_size cb chunk"
  let ?rest = "sum_list (map (chunk_size cb) itr)"
  have rest: "0 \<le> ?rest" using Cons.prems(3) by (intro sum_list_nonneg) auto
  have sz: "0 \<le> ?sz" using Cons.prems(3) by simp
  have cover: "?sz + ?rest \<le> bucket s" using Cons.prems(4) by simp
  have grows: "bucket s \<le> bucket (final (check_fill clk s))"
    using Cons.prems(1,2) by (rule check_fill_grows)
  show ?case
  proof (cases rule: iter_body_cases[of clk s ?sz])
    case (raise_first e s1)
    then show ?thesis using check_fill_env(2)[of clk s] by simp
  next
    case (no_wait s1)
    let ?s' = "s1\<lparr>bucket := bucket s1 - ?sz\<rparr>"
    have s1: "s1 = final (check_fill clk s)" using no_wait(1) by simp
    have "slept (final (snd (speed_limit_iter clk cb itr ?s'))) = slept ?s'"
    proof (rule Cons.IH)
      show "0 < refresh_rate_seconds ?s'" "0 \<le> items_per_tic ?s'"
        using Cons.prems(1,2) unfolding s1 by simp_all
      show "\<forall>c \<in> set itr. 0 \<le> chunk_size cb c" using Cons.prems(3) by simp
      show "?rest \<le> bucket ?s'" using cover grows unfolding s1 by simp
    qed
    moreover have "slept ?s' = slept s" unfolding s1 by simp
    ultimately show ?thesis using no_wait(3) by (simp add: split_beta)
  next
    case (zero_rate s1)
    then have "bucket (final (check_fill clk s)) < ?sz" by simp
    then show ?thesis using cover grows rest by simp
  next
    case (wait s1 s3)
    then have "bucket (final (check_fill clk s)) < ?sz" by simp
    then show ?thesis using cover grows rest by simp
  qed
qed

lemma unlimited_init: "init (\<lambda>n. 0) 0 1 1 0 5 10 = Inr unlimited"
  by (simp add: init_def unlimited_def)

text \<open>
  C9, as stated, fails: unset, \<open>items_per_second\<close> is \<open>10 ^ 10\<close>, and a chunk larger than
  the bucket waits like any other. With all arguments at their defaults a first chunk of
  size \<open>2 * 10 ^ 10\<close> calls \<open>sleep_func\<close> with 2.
\<close>

theorem unset_rate_waits_counterexample:
  "init (\<lambda>n. 0) 0 1 1 0 5 10 = Inr unlimited
   \<and> slept (final (snd (speed_limit_iter (\<lambda>n. 0) (Some (\<lambda>x. x)) [2 * 10 ^ 10] unlimited))) = [2]"
  using unlimited_init
  by (simp add: chunk_size_def iter_body_def check_fill_def Let_def unlimited_def py_int_def
        split_beta)

text \<open>
  C9, amended. With \<open>items_per_second\<close> unset and a positive tic length, \<open>sleep_func\<close> is
  never called during a run over chunks of non-negative sizes whose sum is at most the
  \<open>10 ^ 10 * refresh_rate_seconds * initial_bucket_size\<close> tokens of the construction,
  whatever the clock reads and however the run ends.
\<close>

theorem unset_rate_no_wait_while_covered:
  assumes "init clk 0 rr ibs mps ci tsc = Inr s0" "0 < rr"
    and "\<forall>c \<in> set itr. 0 \<le> chunk_size cb c"
    and "sum_list (map (chunk_size cb) itr) \<le> 10 ^ 10 * rr * ibs"
  shows "slept (final (snd (speed_limit_iter clk cb itr s0))) = []"
proof -
  have s0: "refresh_rate_seconds s0 = rr" "items_per_tic s0 = 10 ^ 10 * rr"
    "bucket s0 = 10 ^ 10 * rr * ibs" "slept s0 = []"
    using assms(1) by (auto simp add: init_def Let_def split: if_splits)
  have "slept (final (snd (speed_limit_iter clk cb itr s0))) = slept s0"
    using assms(2-4) by (intro no_wait_while_covered) (simp_all add: s0)
  then show ?thesis by (simp add: s0)
qed

text \<open>C9, amended, for the chunks of sizes 3 and 4 with all arguments at their defaults.\<close>

theorem unset_rate_no_wait_while_covered_witness:
  "init (\<lambda>n. 0) 0 1 1 0 5 10 = Inr unlimited \<and> (0::real) < 1
   \<and> 0 \<le> chunk_size (Some (\<lambda>x. x)) (3::real) \<and> 0 \<le> chunk_size (Some (\<lambda>x. x)) (4::real)
   \<and> sum_list (map (chunk_size (Some (\<lambda>x. x))) [3, 4::real]) \<le> 10 ^ 10 * 1 * 1
   \<and> slept (final (snd (speed_limit_iter (\<lambda>n. 0) (Some (\<lambda>x. x)) [3, 4] unlimited))) = []"
  using unset_rate_no_wait_while_covered[OF unlimited_init,
          where itr = "[3, 4]" and cb = "Some (\<lambda>x. x)"]
        unlimited_init
  by (simp add: chunk_size_def)

section \<open>The size of the bucket\<close>

lemma within_credit_check_fill:
  assumes "mono clk" "within_credit clk b0 s"
  shows "within_credit clk b0 (final (check_fill clk s))"
proof -
  let ?s' = "final (check_fill clk s)"
  let ?r = "refresh_rate_seconds s"
  let ?now = "clk (reads s)"
  from assms(2) have r: "0 < ?r" and ipt: "0 \<le> items_per_tic s" and rd: "0 < reads s"
    and nf: "next_fill s \<le> clk (reads s - 1) + ?r"
    and b: "bucket s * ?r \<le> b0 * ?r + items_per_tic s * (next_fill s - ?r - clk 0)"
    by (simp_all add: within_credit_def)
  have prev: "clk (reads s - 1) \<le> ?now" using assms(1) by (simp add: monoD)
  have "next_fill ?s' \<le> ?now + ?r
        \<and> bucket ?s' * ?r \<le> b0 * ?r + items_per_tic s * (next_fill ?s' - ?r - clk 0)"
  proof (cases "?now > next_fill s")
    case True
    let ?T = "of_int \<lceil>(?now - next_fill s) / ?r\<rceil> :: real"
    have "?T * ?r - ?r < ?now - next_fill s" using r by (rule tics_cover(2))
    moreover have "(bucket s + ?T * items_per_tic s) * ?r
        = bucket s * ?r + items_per_tic s * (?T * ?r)"
      by (simp add: algebra_simps)
    moreover have "items_per_tic s * (next_fill s + ?T * ?r - ?r - clk 0)
        = items_per_tic s * (next_fill s - ?r - clk 0) + items_per_tic s * (?T * ?r)"
      by (simp add: algebra_simps)
    ultimately show ?thesis using True r b
      by (simp add: check_fill_bucket check_fill_next_fill)
  next
    case False
    then show ?thesis using nf prev b
      by (simp add: check_fill_bucket check_fill_next_fill)
  qed
  then show ?thesis using r ipt by (simp add: within_credit_def)
qed

lemma within_credit_read:
  assumes "mono clk" "within_credit clk b0 s"
  shows "within_credit clk b0 (s\<lparr>reads := Suc (reads s), slept := l\<rparr>)"
proof -
  have "clk (reads s - 1) \<le> clk (reads s)" using assms(1) by (simp add: monoD)
  then show ?thesis using assms(2) by (simp add: within_credit_def)
qed

lemma within_credit_debit:
  assumes "0 \<le> sz" "within_credit clk b0 s"
  shows "within_credit clk b0 (s\<lparr>bucket := bucket s - sz\<rparr>)"
proof -
  let ?r = "refresh_rate_seconds s"
  from assms(2) have r: "0 < ?r"
    and b: "bucket s * ?r \<le> b0 * ?r + items_per_tic s * (next_fill s - ?r - clk 0)"
    by (simp_all add: within_credit_def)
  have "(bucket s - sz) * ?r \<le> bucket s * ?r"
    using assms(1) r by (intro mult_right_mono) simp_all
  from this b have "(bucket s - sz) * ?r
      \<le> b0 * ?r + items_per_tic s * (next_fill s - ?r - clk 0)"
    by (rule order_trans)
  then show ?thesis using assms(2) by (simp add: within_credit_def)
qed

lemma within_credit_reads_only:
  assumes "mono clk" "within_credit clk b0 s"
  shows "within_credit clk b0 (s\<lparr>reads := Suc (reads s)\<rparr>)"
proof -
  have "clk (reads s - 1) \<le> clk (reads s)" using assms(1) by (simp add: monoD)
  then show ?thesis using assms(2) by (simp add: within_credit_def)
qed

lemma within_credit_iter_body:
  assumes "mono clk" "0 \<le> sz" "within_credit clk b0 s"
  shows "within_credit clk b0 (final (iter_body clk sz s))"
proof -
  have first: "within_credit clk b0 (final (check_fill clk s))"
    using assms(1,3) by (rule within_credit_check_fill)
  show ?thesis
  proof (cases rule: iter_body_cases[of clk s sz])
    case (raise_first e s1)
    then show ?thesis using first by simp
  next
    case (no_wait s1)
    then show ?thesis using first within_credit_debit[OF assms(2), of clk b0 s1] by simp
  next
    case (zero_rate s1)
    then show ?thesis using first within_credit_reads_only[OF assms(1), of b0 s1] by simp
  next
    case (wait s1 s3)
    have "within_credit clk b0 s3"
      unfolding wait(4) using wait(1) first by (intro within_credit_read assms(1)) simp
    then have again: "within_credit clk b0 (final (check_fill clk s3))"
      using assms(1) by (intro within_credit_check_fill)
    show ?thesis
    proof (cases "check_fill clk s3")
      case (Inl p)
      then show ?thesis using again wait(5) by simp
    next
      case (Inr s4)
      then show ?thesis
        using again wait(5) within_credit_debit[OF assms(2), of clk b0 s4] by simp
    qed
  qed
qed

lemma within_credit_reachable:
  assumes "mono clk" "within_credit clk b0 s0" "reachable clk s0 s"
  shows "within_credit clk b0 s"
  using assms(3)
proof (induction rule: reachable.induct)
  case constructed
  show ?case by (rule assms(2))
next
  case (filled s)
  then show ?case using assms(1) by (intro within_credit_check_fill)
next
  case (admitted s sz)
  then show ?case using assms(1) by (intro within_credit_iter_body)
qed

lemma within_credit_init:
  assumes "init clk ips rr ibs mps ci tsc = Inr s0" "mono clk" "0 < rr" "0 \<le> ips"
  shows "within_credit clk ((if ips = 0 then 10 ^ 10 else ips) * rr * ibs) s0"
    and "items_per_tic s0 = (if ips = 0 then 10 ^ 10 else ips) * rr"
    and "refresh_rate_seconds s0 = rr"
proof -
  have "clk 0 \<le> clk 1" using assms(2) by (simp add: monoD)
  then show "within_credit clk ((if ips = 0 then 10 ^ 10 else ips) * rr * ibs) s0"
    using assms by (auto simp add: init_def Let_def within_credit_def split: if_splits)
  show "items_per_tic s0 = (if ips = 0 then 10 ^ 10 else ips) * rr"
    "refresh_rate_seconds s0 = rr"
    using assms(1) by (auto simp add: init_def Let_def split: if_splits)
qed

lemma reachable_config:
  assumes "reachable clk s0 s"
  shows "items_per_tic s = items_per_tic s0 \<and> refresh_rate_seconds s = refresh_rate_seconds s0"
  using assms
proof (induction rule: reachable.induct)
  case constructed
  show ?case by simp
next
  case (filled s)
  then show ?case by simp
next
  case (admitted s sz)
  show ?case
  proof (cases rule: iter_body_cases[of clk s sz])
    case (raise_first e s1)
    then show ?thesis using admitted.IH check_fill_config(1,2)[of clk s] by simp
  next
    case (no_wait s1)
    then show ?thesis using admitted.IH check_fill_config(1,2)[of clk s] by simp
  next
    case (zero_rate s1)
    then show ?thesis using admitted.IH check_fill_config(1,2)[of clk s] by simp
  next
    case (wait s1 s3)
    have c1: "items_per_tic s3 = items_per_tic s0 \<and> refresh_rate_seconds s3 = refresh_rate_seconds s0"
      using wait(1,4) admitted.IH check_fill_config(1,2)[of clk s] by simp
    show ?thesis
    proof (cases "check_fill clk s3")
      case (Inl p)
      then show ?thesis using c1 wait(5) check_fill_config(1,2)[of clk s3] by simp
    next
      case (Inr s4)
      then show ?thesis using c1 wait(5) check_fill_config(1,2)[of clk s3] by simp
    qed
  qed
qed

text \<open>A run of the generator over chunks of non-negative sizes stays within the reachable states.\<close>

lemma speed_limit_iter_reachable:
  assumes "reachable clk s0 s" "\<forall>c \<in> set itr. 0 \<le> chunk_size cb c"
  shows "reachable clk s0 (final (snd (speed_limit_iter clk cb itr s)))"
  using assms
proof (induction itr arbitrary: s)
  case Nil
  then show ?case by simp
next
  case (Cons chunk itr)
  let ?sz = "chunk_size cb chunk"
  have step: "reachable clk s0 (final (iter_body clk ?sz s))"
    using Cons.prems by (intro reachable.admitted) simp_all
  show ?case
  proof (cases "iter_body clk ?sz s")
    case (Inl p)
    then show ?thesis using step by (cases p) simp
  next
    case (Inr s')
    then have "reachable clk s0 s'" using step by simp
    then have "reachable clk s0 (final (snd (speed_limit_iter clk cb itr s')))"
      using Cons.prems(2) by (intro Cons.IH) simp_all
    then show ?thesis using Inr by (simp add: split_beta)
  qed
qed

lemma mono_idle_clock: "mono idle_clock"
  by (rule monoI) (simp add: idle_clock_def)

text \<open>
  C3, as stated, fails: \<open>_check_fill\<close> has no cap. At \<open>start\<close> the claimed bound is
  \<open>10 * 1 * 1\<close> tokens plus one tic of 10; the first fill, read 6 seconds after the
  construction, credits 5 tics and leaves 60.
\<close>

theorem bucket_exceeds_burst_counterexample:
  "init idle_clock 10 1 1 5 5 2 = Inr start
   \<and> reachable idle_clock start (final (check_fill idle_clock start))
   \<and> bucket (final (check_fill idle_clock start)) = 60
   \<and> (10::real) * 1 * 1 + items_per_tic start < 60"
  using start_init reachable.filled[OF reachable.constructed, of idle_clock start]
  by (simp add: check_fill_bucket start_def idle_clock_def)

text \<open>
  C3, amended. Under a monotonic clock, for a positive tic length and a non-negative
  \<open>items_per_second\<close>, in every state reachable from the construction the bucket is at
  most the tokens of the construction, \<open>rate * refresh_rate_seconds * initial_bucket_size\<close>,
  plus \<open>rate\<close> times the time from the construction to the latest reading of the clock,
  where \<open>rate\<close> is \<open>items_per_second\<close>, or \<open>10 ^ 10\<close> when that is unset. The bound grows
  with the time elapsed: there is no fixed cap.
\<close>

theorem bucket_bounded_by_elapsed_time:
  assumes "init clk ips rr ibs mps ci tsc = Inr s0"
    and "mono clk" "0 < rr" "0 \<le> ips"
    and "reachable clk s0 s"
  shows "let rate = (if ips = 0 then 10 ^ 10 else ips)
         in bucket s \<le> rate * rr * ibs + rate * (clk (reads s - 1) - clk 0)"
proof -
  let ?rate = "if ips = 0 then 10 ^ 10 else ips :: real"
  have rate: "0 \<le> ?rate" using assms(4) by simp
  note i = within_credit_init[OF assms(1-4)]
  have w: "within_credit clk (?rate * rr * ibs) s"
    using assms(2) i(1) assms(5) by (rule within_credit_reachable)
  have cfg: "items_per_tic s = ?rate * rr" "refresh_rate_seconds s = rr"
    using reachable_config[OF assms(5)] i(2,3) by simp_all
  from w have nf: "next_fill s - rr - clk 0 \<le> clk (reads s - 1) - clk 0"
    and b: "bucket s * rr \<le> ?rate * rr * ibs * rr + ?rate * rr * (next_fill s - rr - clk 0)"
    unfolding within_credit_def cfg by simp_all
  have "?rate * rr * (next_fill s - rr - clk 0) \<le> ?rate * rr * (clk (reads s - 1) - clk 0)"
    using nf rate assms(3) by (intro mult_left_mono) simp_all
  with b have "bucket s * rr
      \<le> (?rate * rr * ibs + ?rate * (clk (reads s - 1) - clk 0)) * rr"
    by (simp add: algebra_simps)
  then have "bucket s \<le> ?rate * rr * ibs + ?rate * (clk (reads s - 1) - clk 0)"
    using assms(3) by (simp only: mult_le_cancel_right_pos)
  then show ?thesis by (simp add: Let_def)
qed

text \<open>C3, amended, at the state of the counterexample: 60 tokens, and 10 + 10 * 6 allowed.\<close>

theorem bucket_bounded_by_elapsed_time_witness:
  "init idle_clock 10 1 1 5 5 2 = Inr start \<and> mono idle_clock \<and> (0::real) < 1
   \<and> (0::real) \<le> 10
   \<and> reachable idle_clock start (final (check_fill idle_clock start))
   \<and> bucket (final (check_fill idle_clock start)) \<le> 70"
proof -
  have r: "reachable idle_clock start (final (check_fill idle_clock start))"
    by (rule reachable.filled[OF reachable.constructed])
  have "idle_clock (reads (final (check_fill idle_clock start)) - 1) = 6"
       "idle_clock 0 = 0"
    by (simp_all add: start_def idle_clock_def)
  then show ?thesis
    using bucket_bounded_by_elapsed_time[OF start_init mono_idle_clock _ _ r]
          start_init mono_idle_clock r
    by (simp add: Let_def)
qed

end
